theory Spec2Isabelle
  imports Complex_Main "HOL-Library.Word" "HOL-Library.Log_Nat"
begin

unbundle bit_operations_syntax

section \<open>Data model\<close>

text \<open>
  The embedding follows \<^verbatim>\<open>png/png.go\<close> and \<^verbatim>\<open>stegano.go\<close>.
  Go's \<^verbatim>\<open>int\<close> is taken as the unbounded \<^typ>\<open>int\<close> (lengths, widths and
  heights, which are never negative, as \<^typ>\<open>nat\<close>); \<^verbatim>\<open>uint8\<close> is \<^typ>\<open>8 word\<close> and
  \<^verbatim>\<open>uint32\<close> is \<^typ>\<open>32 word\<close>. Run-time panics and returned errors are values of the
  type \<open>error\<close>.
\<close>

type_synonym byte = "8 word"

datatype panic = IndexOutOfRange | DivideByZero | IntnArgument | MakeLength

datatype error =
    ErrCapacityMax nat nat
  | ErrCapacityOverflow nat nat
  | Panic panic

text \<open>\<^verbatim>\<open>type SteganoPNG struct { hcoder [][]uint8; hmap map[uint8]uint8 }\<close>\<close>

record SteganoPNG =
  hcoder :: "byte list list"
  hmap :: "byte \<rightharpoonup> byte"

subsection \<open>CalculateCapacity\<close>

definition CalculateCapacity :: "nat \<Rightarrow> nat \<Rightarrow> nat \<Rightarrow> nat \<Rightarrow> nat" where
  "CalculateCapacity width height channels bitsPerByte =
     width * height * channels * bitsPerByte div 8"

subsection \<open>initHCoder and New\<close>

text \<open>
  \<^verbatim>\<open>s.hcoder[k] = append(s.hcoder[k], uint8(i)); s.hmap[uint8(i)] = k\<close>
\<close>

definition hcoder_add :: "nat \<Rightarrow> nat \<Rightarrow> SteganoPNG \<Rightarrow> SteganoPNG" where
  "hcoder_add k i s =
     s\<lparr>hcoder := (hcoder s)[k := hcoder s ! k @ [of_nat i]],
       hmap := (hmap s)(of_nat i \<mapsto> of_nat k)\<rparr>"

text \<open>The body of the loop \<^verbatim>\<open>for i := 0; i < 256; i++\<close>: a switch whose first true case runs.\<close>

definition initHCoder_body :: "nat \<Rightarrow> SteganoPNG \<Rightarrow> SteganoPNG" where
  "initHCoder_body i s =
     (if i mod 4 = 0 \<and> i div 4 > 0 then hcoder_add 3 i s
      else if i mod 3 = 0 \<and> i div 3 > 0 then hcoder_add 2 i s
      else if i mod 2 = 0 \<and> i div 2 > 0 then hcoder_add 1 i s
      else if i mod 1 = 0 \<and> i div 1 > 0 then hcoder_add 0 i s
      else s)"

definition initHCoder :: "SteganoPNG \<Rightarrow> SteganoPNG" where
  "initHCoder s =
     fold initHCoder_body [0..<256] (s\<lparr>hcoder := [[], [], [], []], hmap := Map.empty\<rparr>)"

definition New :: SteganoPNG where
  "New = initHCoder \<lparr>hcoder = [], hmap = Map.empty\<rparr>"

subsection \<open>headerBytes\<close>

text \<open>
  \<^verbatim>\<open>fmt.Sprintf("%08b", dlen)\<close>: the binary digits of a non-negative number, padded with
  zeros on the left to at least eight characters.
\<close>

fun binary_digits :: "nat \<Rightarrow> string" where
  "binary_digits n =
     (if n < 2 then [if n = 0 then CHR ''0'' else CHR ''1'']
      else binary_digits (n div 2) @ [if n mod 2 = 0 then CHR ''0'' else CHR ''1''])"

definition Sprintf_08b :: "nat \<Rightarrow> string" where
  "Sprintf_08b n = replicate (8 - length (binary_digits n)) CHR ''0'' @ binary_digits n"

text \<open>
  The loop \<^verbatim>\<open>for bi := 0; bi < bytecount; bi++ { b[bi] |= uint8(l & 255); l = l >> 8 }\<close>
  on a zeroed buffer \<open>b\<close>.
\<close>

fun length_bytes :: "nat \<Rightarrow> nat \<Rightarrow> byte list" where
  "length_bytes 0 l = []"
| "length_bytes (Suc n) l = (0 OR of_nat (l AND 255)) # length_bytes n (drop_bit 8 l)"

text \<open>
  \<^verbatim>\<open>ri := r.Intn(len(s.hcoder[k])); b = append([]byte{s.hcoder[k][ri]}, b...)\<close>.
  The random source is a parameter of the model: \<open>rnd\<close> is the raw draw and
  \<^verbatim>\<open>Intn(n)\<close> reduces it to the range \<open>0..<n\<close>, so every member of the class is
  chosen by some draw. \<^verbatim>\<open>Intn\<close> panics for \<open>n \<le> 0\<close>, indexing outside a slice panics.
\<close>

definition Intn :: "nat \<Rightarrow> nat \<Rightarrow> error + nat" where
  "Intn rnd n = (if n = 0 then Inl (Panic IntnArgument) else Inr (rnd mod n))"

definition prepend_index :: "SteganoPNG \<Rightarrow> nat \<Rightarrow> nat \<Rightarrow> byte list \<Rightarrow> error + byte list" where
  "prepend_index s rnd k b =
     (if k < length (hcoder s) then
        (case Intn rnd (length (hcoder s ! k)) of
           Inl e \<Rightarrow> Inl e
         | Inr ri \<Rightarrow> Inr ((hcoder s ! k ! ri) # b))
      else Inl (Panic IndexOutOfRange))"

definition headerBytes :: "SteganoPNG \<Rightarrow> nat \<Rightarrow> nat \<Rightarrow> error + byte list" where
  "headerBytes s rnd dlen =
     (let max = 2 ^ 32 in
      if dlen > max then Inl (ErrCapacityMax dlen max)
      else
        let bitcount = length (Sprintf_08b dlen);
            bytecount = (if bitcount mod 8 > 0 then bitcount div 8 + 1 else bitcount div 8);
            b = length_bytes bytecount dlen
        in if dlen < 2 ^ 8 then prepend_index s rnd 0 b
           else if dlen < 2 ^ 16 then prepend_index s rnd 1 b
           else if dlen < 2 ^ 24 then prepend_index s rnd 2 b
           else if dlen < 2 ^ 32 then prepend_index s rnd 3 b
           else Inr b)"

subsection \<open>Integer division and float64 arithmetic of Go\<close>

text \<open>Go's \<^verbatim>\<open>/\<close> and \<^verbatim>\<open>%\<close> on integers truncate towards zero.\<close>

definition go_quo :: "int \<Rightarrow> int \<Rightarrow> int" where
  "go_quo k l = sgn k * sgn l * (\<bar>k\<bar> div \<bar>l\<bar>)"

definition go_rem :: "int \<Rightarrow> int \<Rightarrow> int" where
  "go_rem k l = sgn k * (\<bar>k\<bar> mod \<bar>l\<bar>)"

text \<open>
  A \<^verbatim>\<open>float64\<close> is a binary64 value: a rational with a 53-bit significand, an
  infinity or a NaN. Every operation rounds its exact result to the nearest such
  rational, ties to the even significand. The operands of this program are conversions
  of 64-bit integers, so the exponent range of binary64 is never left and is not modelled;
  nor is the sign of zero.
\<close>

datatype f64 = Finite rat | PosInf | NegInf | NaN

definition round_even :: "rat \<Rightarrow> int" where
  "round_even x =
     (let f = \<lfloor>x\<rfloor>; r = x - of_int f
      in if r < 1 / 2 then f else if 1 / 2 < r then f + 1 else if even f then f else f + 1)"

text \<open>For \<open>0 < x\<close>, the exponent \<open>e\<close> with \<open>2 powi e \<le> x < 2 powi (e + 1)\<close>.\<close>

definition binade :: "rat \<Rightarrow> int" where
  "binade x =
     (if 1 \<le> x then int (floorlog 2 (nat \<lfloor>x\<rfloor>)) - 1
      else - int (floorlog 2 (nat (\<lceil>1 / x\<rceil> - 1))))"

definition round53 :: "rat \<Rightarrow> rat" where
  "round53 x =
     (if x = 0 then 0
      else let e = binade \<bar>x\<bar> - 52
           in sgn x * of_int (round_even (\<bar>x\<bar> / 2 powi e)) * 2 powi e)"

text \<open>\<^verbatim>\<open>float64(n) / float64(d)\<close> for integers \<open>n\<close> and \<open>d \<ge> 0\<close>.\<close>

definition f64_quot :: "int \<Rightarrow> int \<Rightarrow> f64" where
  "f64_quot n d =
     (if d = 0 then (if 0 < n then PosInf else if n < 0 then NegInf else NaN)
      else Finite (round53 (round53 (of_int n) / round53 (of_int d))))"

text \<open>\<^verbatim>\<open>f * 4\<close>\<close>

definition f64_times4 :: "f64 \<Rightarrow> f64" where
  "f64_times4 v = (case v of Finite x \<Rightarrow> Finite (round53 (x * 4)) | _ \<Rightarrow> v)"

text \<open>
  \<^verbatim>\<open>int(f)\<close> discards the fraction. Where the value is not representable as a 64-bit
  integer (too large, infinite or NaN) the conversion succeeds with an
  implementation-dependent result; that result is the parameter \<open>cvt\<close> of the model.
\<close>

definition int_of_f64 :: "(f64 \<Rightarrow> int) \<Rightarrow> f64 \<Rightarrow> int" where
  "int_of_f64 cvt v =
     (case v of
        Finite x \<Rightarrow>
          if - (2 ^ 63) \<le> x \<and> x < 2 ^ 63 then (if 0 \<le> x then \<lfloor>x\<rfloor> else \<lceil>x\<rceil>) else cvt v
      | _ \<Rightarrow> cvt v)"

text \<open>\<^verbatim>\<open>step := int(float64(cap-len(hdata)) / float64(len(data)) * 4)\<close>\<close>

definition stepOf :: "(f64 \<Rightarrow> int) \<Rightarrow> int \<Rightarrow> int \<Rightarrow> int" where
  "stepOf cvt n d = int_of_f64 cvt (f64_times4 (f64_quot n d))"

text \<open>
  On amd64 the result of the conversion of a value that is not representable is the
  most negative 64-bit integer.
\<close>

definition cvt_amd64 :: "f64 \<Rightarrow> int" where
  "cvt_amd64 v = - (2 ^ 63)"

subsection \<open>Images\<close>

text \<open>
  The image codec is outside the program. A decoded source image is its width and
  height and the function \<^verbatim>\<open>At(x, y).RGBA()\<close>, four \<^verbatim>\<open>uint32\<close> values; the bounds of a
  decoded PNG or JPEG start at \<open>(0, 0)\<close>. The image handed to the PNG encoder is an
  \<^verbatim>\<open>image.NRGBA\<close>: four bytes per pixel, rows first.
\<close>

datatype color = Color (red: "32 word") (green: "32 word") (blue: "32 word") (alpha: "32 word")

record Image =
  img_width :: nat
  img_height :: nat
  At :: "nat \<Rightarrow> nat \<Rightarrow> color"

datatype NRGBA = NRGBA (chR: byte) (chG: byte) (chB: byte) (chA: byte)

record NRGBAImage =
  out_width :: nat
  out_height :: nat
  Pix :: "NRGBA list"

text \<open>\<^verbatim>\<open>uint8(r / 256)\<close>\<close>

definition normalized :: "32 word \<Rightarrow> byte" where
  "normalized v = ucast (v div 256)"

text \<open>
  The order of \<^verbatim>\<open>for y := ...  { for x := ... \<close>: the coordinates \<open>(x, y)\<close>, rows first.
\<close>

definition raster :: "nat \<Rightarrow> nat \<Rightarrow> (nat \<times> nat) list" where
  "raster w h = concat (map (\<lambda>y. map (\<lambda>x. (x, y)) [0..<w]) [0..<h])"

text \<open>Running a loop body over a list; the first panic ends the run.\<close>

fun foldE :: "('a \<Rightarrow> 's \<Rightarrow> error + 's) \<Rightarrow> 'a list \<Rightarrow> 's \<Rightarrow> error + 's" where
  "foldE f [] s = Inr s"
| "foldE f (x # xs) s = (case f x s of Inl e \<Rightarrow> Inl e | Inr s' \<Rightarrow> foldE f xs s')"

fun mapE :: "('a \<Rightarrow> error + 'b) \<Rightarrow> 'a list \<Rightarrow> error + 'b list" where
  "mapE f [] = Inr []"
| "mapE f (x # xs) =
     (case f x of
        Inl e \<Rightarrow> Inl e
      | Inr y \<Rightarrow> (case mapE f xs of Inl e \<Rightarrow> Inl e | Inr ys \<Rightarrow> Inr (y # ys)))"

text \<open>
  The data byte index \<open>dbi\<close> and start bit index \<open>sbi\<close> of the available encoding byte
  \<open>abi\<close>, for a header of \<open>hlen\<close> bytes (lines 167-175 and 275-284); \<open>in_header\<close> is the
  condition of the \<^verbatim>\<open>if\<close>.
\<close>

definition indices :: "bool \<Rightarrow> nat \<Rightarrow> int \<Rightarrow> nat \<Rightarrow> error + int \<times> int" where
  "indices in_header hlen step abi =
     (if in_header then Inr (int (abi div 4), int (abi mod 4 * 2))
      else if step = 0 then Inl (Panic DivideByZero)
      else Inr (go_quo (int abi - int (hlen * 4)) step,
                go_rem (int abi - int (hlen * 4)) step * 2))"

text \<open>\<^verbatim>\<open>b[i]\<close>, which panics outside the slice.\<close>

definition index :: "byte list \<Rightarrow> int \<Rightarrow> error + byte" where
  "index b i = (if 0 \<le> i \<and> i < int (length b) then Inr (b ! nat i) else Inl (Panic IndexOutOfRange))"

subsection \<open>Conceal\<close>

text \<open>
  One round of \<^verbatim>\<open>for ebi := 0; ebi < 2; ebi++\<close> (lines 183-204) on the channel value
  \<open>pxc\<close>.
\<close>

definition conceal_bit ::
  "byte list \<Rightarrow> byte list \<Rightarrow> nat \<Rightarrow> int \<Rightarrow> int \<Rightarrow> nat \<Rightarrow> byte \<Rightarrow> error + byte" where
  "conceal_bit hdata data abi dbi sbi ebi pxc =
     (let bi = sbi + int ebi
      in case index (if abi < length hdata * 4 then hdata else data) dbi of
           Inl e \<Rightarrow> Inl e
         | Inr v \<Rightarrow>
             let bit = v AND push_bit (unat (word_of_int bi :: byte)) 1
             in if bit = 0 then Inr (pxc AND NOT (of_nat (ebi + 1)))
                else Inr (pxc OR of_nat (ebi + 1)))"

text \<open>The body of \<^verbatim>\<open>for ci := 0; ci < 3; ci++\<close> (lines 164-211) for one channel.\<close>

definition conceal_cell :: "byte list \<Rightarrow> byte list \<Rightarrow> int \<Rightarrow> nat \<Rightarrow> byte \<Rightarrow> error + byte" where
  "conceal_cell hdata data step abi pxc =
     (case indices (abi < length hdata * 4) (length hdata) step abi of
        Inl e \<Rightarrow> Inl e
      | Inr (dbi, sbi) \<Rightarrow>
          if sbi < 8 \<and> dbi < int (length data)
          then foldE (conceal_bit hdata data abi dbi sbi) [0, 1] pxc
          else Inr pxc)"

definition conceal_channel ::
  "byte list \<Rightarrow> byte list \<Rightarrow> int \<Rightarrow> nat \<Rightarrow> nat \<Rightarrow> byte list \<Rightarrow> error + byte list" where
  "conceal_channel hdata data step pxi ci px =
     (case conceal_cell hdata data step (pxi * 3 + ci) (px ! ci) of
        Inl e \<Rightarrow> Inl e
      | Inr v \<Rightarrow> Inr (px[ci := v]))"

text \<open>The body of the loop over \<open>x\<close> (lines 151-219): the pixel set in the output image.\<close>

definition conceal_pixel ::
  "byte list \<Rightarrow> byte list \<Rightarrow> int \<Rightarrow> Image \<Rightarrow> nat \<times> nat \<Rightarrow> error + NRGBA" where
  "conceal_pixel hdata data step sourceImg xy =
     (let c = At sourceImg (fst xy) (snd xy);
          px = [normalized (red c), normalized (green c), normalized (blue c)];
          pxi = fst xy + snd xy * img_width sourceImg
      in case foldE (conceal_channel hdata data step pxi) [0, 1, 2] px of
           Inl e \<Rightarrow> Inl e
         | Inr px' \<Rightarrow> Inr (NRGBA (px' ! 0) (px' ! 1) (px' ! 2) (normalized (alpha c))))"

text \<open>
  Lines 134-145: the header, the capacity check and the step. The result is the header
  and the step, or the error returned.
\<close>

definition conceal_setup ::
  "(f64 \<Rightarrow> int) \<Rightarrow> SteganoPNG \<Rightarrow> nat \<Rightarrow> byte list \<Rightarrow> Image \<Rightarrow> error + byte list \<times> int" where
  "conceal_setup cvt s rnd data sourceImg =
     (case headerBytes s rnd (length data) of
        Inl e \<Rightarrow> Inl e
      | Inr hdata \<Rightarrow>
          let cap = CalculateCapacity (img_width sourceImg) (img_height sourceImg) 3 2
          in if int (length data) > int cap - int (length hdata)
             then Inl (ErrCapacityOverflow (length data) cap)
             else
               let step = stepOf cvt (int cap - int (length hdata)) (int (length data))
               in if hdata = [] then Inl (Panic IndexOutOfRange) else Inr (hdata, step))"

text \<open>
  \<open>Conceal\<close> returns the image it hands to \<^verbatim>\<open>png.Encode\<close>, or the error it returns
  before any image is encoded. (The last test of \<open>conceal_setup\<close> is the read of
  \<^verbatim>\<open>hdata[0]\<close> in the log line.)
\<close>

definition Conceal ::
  "(f64 \<Rightarrow> int) \<Rightarrow> SteganoPNG \<Rightarrow> nat \<Rightarrow> byte list \<Rightarrow> Image \<Rightarrow> error + NRGBAImage" where
  "Conceal cvt s rnd data sourceImg =
     (let width = img_width sourceImg; height = img_height sourceImg
      in case conceal_setup cvt s rnd data sourceImg of
           Inl e \<Rightarrow> Inl e
         | Inr (hdata, step) \<Rightarrow>
             (case mapE (conceal_pixel hdata data step sourceImg) (raster width height) of
                Inl e \<Rightarrow> Inl e
              | Inr pix \<Rightarrow> Inr \<lparr>out_width = width, out_height = height, Pix = pix\<rparr>))"

subsection \<open>Reveal\<close>

text \<open>
  The variables of \<open>Reveal\<close> that live across the loops (lines 252-256). A slice that is
  still \<^verbatim>\<open>nil\<close> is \<open>None\<close>.
\<close>

record reveal_state =
  r_dbyte :: byte
  r_hdata :: "byte list option"
  r_data :: "byte list option"
  r_step :: int
  r_clen :: int

text \<open>\<^verbatim>\<open>hdata == nil || abi < len(hdata)*4\<close>\<close>

definition in_header :: "reveal_state \<Rightarrow> nat \<Rightarrow> bool" where
  "in_header st abi = (case r_hdata st of None \<Rightarrow> True | Some h \<Rightarrow> abi < length h * 4)"

text \<open>\<^verbatim>\<open>len(hdata)\<close>, which is 0 for a nil slice.\<close>

definition len :: "byte list option \<Rightarrow> nat" where
  "len b = (case b of None \<Rightarrow> 0 | Some xs \<Rightarrow> length xs)"

text \<open>\<^verbatim>\<open>make([]byte, n)\<close>\<close>

definition make :: "int \<Rightarrow> error + byte list" where
  "make n = (if n < 0 then Inl (Panic MakeLength) else Inr (replicate (nat n) 0))"

text \<open>\<^verbatim>\<open>b[i] = v\<close>\<close>

definition store :: "byte list option \<Rightarrow> int \<Rightarrow> byte \<Rightarrow> error + byte list" where
  "store b i v =
     (case b of
        None \<Rightarrow> Inl (Panic IndexOutOfRange)
      | Some xs \<Rightarrow>
          if 0 \<le> i \<and> i < int (length xs) then Inr (xs[nat i := v])
          else Inl (Panic IndexOutOfRange))"

text \<open>
  \<^verbatim>\<open>s.hmap[dbyte]+1+1\<close> in \<^verbatim>\<open>uint8\<close>; a key that is not in the map reads as 0.
\<close>

definition header_length :: "SteganoPNG \<Rightarrow> byte \<Rightarrow> nat" where
  "header_length s b = unat ((case hmap s b of None \<Rightarrow> 0 | Some k \<Rightarrow> k) + 1 + 1)"

text \<open>
  Lines 320-326: the content length from the bytes \<open>cld\<close> after the index byte.
  \<^verbatim>\<open>tbit := cld[i] & (1 << uint(ii)); bit := uint(tbit) << uint(i*8); clen |= int(bit)\<close>
\<close>

definition content_length_bit :: "byte list \<Rightarrow> nat \<Rightarrow> nat \<Rightarrow> int \<Rightarrow> int" where
  "content_length_bit cld i ii clen =
     (let tbit = (cld ! i) AND push_bit ii 1;
          bit = push_bit (i * 8) (ucast tbit :: 64 word)
      in clen OR sint bit)"

definition content_length :: "byte list \<Rightarrow> int \<Rightarrow> int" where
  "content_length cld clen =
     fold (\<lambda>i. fold (content_length_bit cld i) [0..<8]) [0..<length cld] clen"

text \<open>Lines 306-335: a byte is complete.\<close>

definition byte_complete ::
  "(f64 \<Rightarrow> int) \<Rightarrow> SteganoPNG \<Rightarrow> nat \<Rightarrow> nat \<Rightarrow> int \<Rightarrow> reveal_state \<Rightarrow> error + reveal_state" where
  "byte_complete cvt s cap abi dbi st =
     (if in_header st abi then
        (case (if dbi = 0 then make (int (header_length s (r_dbyte st)))
               else (case r_hdata st of None \<Rightarrow> Inl (Panic IndexOutOfRange) | Some h \<Rightarrow> Inr h)) of
           Inl e \<Rightarrow> Inl e
         | Inr h0 \<Rightarrow>
             (case store (Some h0) dbi (r_dbyte st) of
                Inl e \<Rightarrow> Inl e
              | Inr h \<Rightarrow>
                  if dbi = int (length h) - 1 then
                    (let clen = content_length (tl h) (r_clen st)
                     in case make clen of
                          Inl e \<Rightarrow> Inl e
                        | Inr d \<Rightarrow>
                            Inr (st\<lparr>r_hdata := Some h, r_clen := clen, r_data := Some d,
                                    r_step := stepOf cvt (int cap - int (length h)) clen\<rparr>))
                  else Inr (st\<lparr>r_hdata := Some h\<rparr>)))
      else
        (case store (r_data st) dbi (r_dbyte st) of
           Inl e \<Rightarrow> Inl e
         | Inr d \<Rightarrow> Inr (st\<lparr>r_data := Some d\<rparr>)))"

text \<open>One round of \<^verbatim>\<open>for ebi := 0; ebi < 2; ebi++\<close> (lines 290-339).\<close>

definition reveal_bit ::
  "(f64 \<Rightarrow> int) \<Rightarrow> SteganoPNG \<Rightarrow> nat \<Rightarrow> nat \<Rightarrow> byte \<Rightarrow> int \<Rightarrow> int \<Rightarrow> nat \<Rightarrow>
     reveal_state \<Rightarrow> error + reveal_state" where
  "reveal_bit cvt s cap abi pxc dbi sbi ebi st =
     (let bi = sbi + int ebi;
          ebit = pxc AND push_bit (unat (of_nat ebi :: byte)) 1;
          bit = push_bit (unat (word_of_int (go_quo bi 2 * 2) :: byte)) ebit;
          st1 = st\<lparr>r_dbyte := r_dbyte st OR bit\<rparr>
      in if bi = 7 then
           (case byte_complete cvt s cap abi dbi st1 of
              Inl e \<Rightarrow> Inl e
            | Inr st2 \<Rightarrow> Inr (st2\<lparr>r_dbyte := 0\<rparr>))
         else Inr st1)"

text \<open>The body of \<^verbatim>\<open>for ci := 0; ci < 3; ci++\<close> (lines 272-340) for one channel.\<close>

definition reveal_cell ::
  "(f64 \<Rightarrow> int) \<Rightarrow> SteganoPNG \<Rightarrow> nat \<Rightarrow> nat \<Rightarrow> byte \<Rightarrow> reveal_state \<Rightarrow> error + reveal_state" where
  "reveal_cell cvt s cap abi pxc st =
     (case indices (in_header st abi) (len (r_hdata st)) (r_step st) abi of
        Inl e \<Rightarrow> Inl e
      | Inr (dbi, sbi) \<Rightarrow>
          if sbi < 8 \<and> (r_data st = None \<or> dbi < int (len (r_data st)))
          then foldE (reveal_bit cvt s cap abi pxc dbi sbi) [0, 1] st
          else Inr st)"

definition reveal_pixel ::
  "(f64 \<Rightarrow> int) \<Rightarrow> SteganoPNG \<Rightarrow> nat \<Rightarrow> Image \<Rightarrow> nat \<times> nat \<Rightarrow> reveal_state \<Rightarrow>
     error + reveal_state" where
  "reveal_pixel cvt s cap sourceImg xy st =
     (let c = At sourceImg (fst xy) (snd xy);
          px = [normalized (red c), normalized (green c), normalized (blue c)];
          pxi = fst xy + snd xy * img_width sourceImg
      in foldE (\<lambda>ci. reveal_cell cvt s cap (pxi * 3 + ci) (px ! ci)) [0, 1, 2] st)"

definition reveal_init :: reveal_state where
  "reveal_init = \<lparr>r_dbyte = 0, r_hdata = None, r_data = None, r_step = 4, r_clen = 0\<rparr>"

text \<open>\<open>Reveal\<close> returns the bytes it writes to the writer.\<close>

definition Reveal :: "(f64 \<Rightarrow> int) \<Rightarrow> SteganoPNG \<Rightarrow> Image \<Rightarrow> error + byte list" where
  "Reveal cvt s sourceImg =
     (let width = img_width sourceImg; height = img_height sourceImg;
          cap = CalculateCapacity width height 3 2
      in case foldE (reveal_pixel cvt s cap sourceImg) (raster width height) reveal_init of
           Inl e \<Rightarrow> Inl e
         | Inr st \<Rightarrow> Inr (case r_data st of None \<Rightarrow> [] | Some d \<Rightarrow> d))"

subsection \<open>The steganogram as \<open>Reveal\<close> reads it\<close>

text \<open>
  PNG is lossless: decoding the file written by \<open>Conceal\<close> gives back its pixels, and
  \<^verbatim>\<open>At(x, y).RGBA()\<close> on them is \<^verbatim>\<open>color.NRGBA.RGBA\<close> of the standard library
  (\<^verbatim>\<open>r = uint32(c.R); r |= r << 8; r *= uint32(c.A); r /= 0xff\<close>, and
  \<^verbatim>\<open>a = uint32(c.A); a |= a << 8\<close>). Outside the bounds \<^verbatim>\<open>At\<close> is the zero colour.
\<close>

definition premultiply :: "byte \<Rightarrow> byte \<Rightarrow> 32 word" where
  "premultiply c a = ((ucast c OR push_bit 8 (ucast c)) * ucast a) div 255"

definition NRGBA_RGBA :: "NRGBA \<Rightarrow> color" where
  "NRGBA_RGBA c =
     Color (premultiply (chR c) (chA c)) (premultiply (chG c) (chA c))
       (premultiply (chB c) (chA c)) (ucast (chA c) OR push_bit 8 (ucast (chA c)))"

definition decoded :: "NRGBAImage \<Rightarrow> Image" where
  "decoded m =
     \<lparr>img_width = out_width m, img_height = out_height m,
      At = (\<lambda>x y. if x < out_width m \<and> y < out_height m \<and> x + y * out_width m < length (Pix m)
                   then NRGBA_RGBA (Pix m ! (x + y * out_width m))
                   else Color 0 0 0 0)\<rparr>"

section \<open>Auxiliary notions of the proofs\<close>

text \<open>
  The class of a value \<open>i\<close> under the switch of \<open>initHCoder\<close>, and the state of the loop
  after the values below \<open>n\<close>: the invariant of the loop.
\<close>

definition class_of :: "nat \<Rightarrow> byte" where
  "class_of i = (if 4 dvd i then 3 else if 3 dvd i then 2 else if 2 dvd i then 1 else 0)"

definition class_lists :: "nat \<Rightarrow> byte list list" where
  "class_lists n =
     [map of_nat (filter (\<lambda>i. 0 < i \<and> \<not> 4 dvd i \<and> \<not> 3 dvd i \<and> \<not> 2 dvd i) [0..<n]),
      map of_nat (filter (\<lambda>i. 0 < i \<and> \<not> 4 dvd i \<and> \<not> 3 dvd i \<and> 2 dvd i) [0..<n]),
      map of_nat (filter (\<lambda>i. 0 < i \<and> \<not> 4 dvd i \<and> 3 dvd i) [0..<n]),
      map of_nat (filter (\<lambda>i. 0 < i \<and> 4 dvd i) [0..<n])]"

definition class_map :: "nat \<Rightarrow> byte \<rightharpoonup> byte" where
  "class_map n b = (if unat b < n \<and> b \<noteq> 0 then Some (class_of (unat b)) else None)"

text \<open>The number of length bytes that \<open>headerBytes\<close> computes (lines 87-91).\<close>

definition bytecount :: "nat \<Rightarrow> nat" where
  "bytecount dlen =
     (let bitcount = length (Sprintf_08b dlen)
      in if bitcount mod 8 > 0 then bitcount div 8 + 1 else bitcount div 8)"

text \<open>The errors that are run-time panics, not returned error values.\<close>

definition is_panic :: "error \<Rightarrow> bool" where
  "is_panic e = (case e of Panic p \<Rightarrow> True | _ \<Rightarrow> False)"

text \<open>
  Concrete carriers and steganograms: opaque pixels, given by the 16-bit values of
  \<^verbatim>\<open>RGBA()\<close>.
\<close>

definition carrier_black :: Image where
  "carrier_black = \<lparr>img_width = 2, img_height = 2, At = (\<lambda>x y. Color 0 0 0 65535)\<rparr>"

definition carrier_3x2 :: Image where
  "carrier_3x2 =
     \<lparr>img_width = 3, img_height = 2,
      At = (\<lambda>x y. if x = 1 \<and> y = 0 then Color 0 512 0 65535 else Color 0 0 0 65535)\<rparr>"




section \<open>The float64 step is the exact quotient on carriers below \<open>2 ^ 51\<close> bytes\<close>

lemma pow2_le_of_nat: "2 ^ k \<le> m \<Longrightarrow> (2::rat) ^ k \<le> rat_of_nat m"
proof -
  assume "2 ^ k \<le> m"
  then have "rat_of_nat (2 ^ k) \<le> rat_of_nat m" by (rule of_nat_mono)
  then show ?thesis by simp
qed

lemma of_nat_less_pow2: "m < 2 ^ k \<Longrightarrow> rat_of_nat m + 1 \<le> (2::rat) ^ k"
proof -
  assume "m < 2 ^ k"
  then have "m + 1 \<le> 2 ^ k" by simp
  then have "rat_of_nat (m + 1) \<le> rat_of_nat (2 ^ k)" by (rule of_nat_mono)
  then show ?thesis by simp
qed

lemma binade_bounds:
  assumes "0 < x"
  shows "2 powi binade x \<le> x" and "x < 2 powi (binade x + 1)"
proof -
  have "2 powi binade x \<le> x \<and> x < 2 powi (binade x + 1)"
  proof (cases "1 \<le> x")
    case True
    define m where "m = nat \<lfloor>x\<rfloor>"
    define f where "f = floorlog 2 m"
    have "1 \<le> \<lfloor>x\<rfloor>" using True by linarith
    then have m: "0 < m" "rat_of_nat m \<le> x" "x < rat_of_nat m + 1"
      by (simp_all add: m_def) linarith+
    from floorlog_bounds [of m 2] m(1) have fb: "2 ^ (f - 1) \<le> m" "m < 2 ^ f"
      by (simp_all add: f_def)
    have f1: "1 \<le> f" using fb(2) m(1) by (cases f) auto
    have b: "binade x = int (f - 1)" using True f1 by (simp add: binade_def m_def f_def)
    have "2 powi binade x = (2::rat) ^ (f - 1)" by (simp only: b power_int_of_nat)
    also have "\<dots> \<le> rat_of_nat m" using fb(1) by (rule pow2_le_of_nat)
    also have "\<dots> \<le> x" by (rule m(2))
    finally have lo: "2 powi binade x \<le> x" .
    have "binade x + 1 = int f" using b f1 by simp
    then have "2 powi (binade x + 1) = (2::rat) ^ f" by (simp only: power_int_of_nat)
    moreover have "rat_of_nat m + 1 \<le> (2::rat) ^ f" using fb(2) by (rule of_nat_less_pow2)
    ultimately have hi: "x < 2 powi (binade x + 1)" using m(3) by linarith
    from lo hi show ?thesis ..
  next
    case False
    then have x1: "x < 1" by simp
    define y where "y = 1 / x"
    define m where "m = nat (\<lceil>y\<rceil> - 1)"
    define f where "f = floorlog 2 m"
    have y: "1 < y" "0 < y" using assms x1 by (simp_all add: y_def)
    then have c2: "2 \<le> \<lceil>y\<rceil>" by linarith
    then have m: "0 < m" "rat_of_nat m < y" "y \<le> rat_of_nat m + 1"
      by (simp_all add: m_def) linarith+
    from floorlog_bounds [of m 2] m(1) have fb: "2 ^ (f - 1) \<le> m" "m < 2 ^ f"
      by (simp_all add: f_def)
    have f1: "1 \<le> f" using fb(2) m(1) by (cases f) auto
    have b: "binade x = - int f" using False by (simp add: binade_def m_def f_def y_def)
    have "rat_of_nat m + 1 \<le> (2::rat) ^ f" using fb(2) by (rule of_nat_less_pow2)
    then have "y \<le> 2 ^ f" using m(3) by linarith
    then have "1 / 2 ^ f \<le> x" using assms by (simp add: y_def field_simps)
    moreover have "2 powi binade x = 1 / (2::rat) ^ f"
      by (simp only: b power_int_minus_divide power_int_of_nat)
    ultimately have lo: "2 powi binade x \<le> x" by simp
    have "(2::rat) ^ (f - 1) \<le> rat_of_nat m" using fb(1) by (rule pow2_le_of_nat)
    then have "2 ^ (f - 1) < y" using m(2) by linarith
    then have "x < 1 / 2 ^ (f - 1)" using assms by (simp add: y_def field_simps)
    moreover have "binade x + 1 = - int (f - 1)" using b f1 by simp
    then have "2 powi (binade x + 1) = 1 / (2::rat) ^ (f - 1)"
      by (simp only: power_int_minus_divide power_int_of_nat)
    ultimately have hi: "x < 2 powi (binade x + 1)" by simp
    from lo hi show ?thesis ..
  qed
  then show "2 powi binade x \<le> x" and "x < 2 powi (binade x + 1)" by simp_all
qed

lemma binade_less: "0 < x \<Longrightarrow> x < 2 powi j \<Longrightarrow> binade x < j"
proof (rule ccontr)
  assume x: "0 < x" "x < 2 powi j" and "\<not> binade x < j"
  then have "j \<le> binade x" by simp
  then have "(2::rat) powi j \<le> 2 powi binade x" by (rule power_int_increasing) simp
  with binade_bounds(1) [OF x(1)] x(2) show False by simp
qed

lemma binade_ge: "0 < x \<Longrightarrow> 2 powi j \<le> x \<Longrightarrow> j \<le> binade x"
proof (rule ccontr)
  assume x: "0 < x" "2 powi j \<le> x" and "\<not> j \<le> binade x"
  then have "binade x + 1 \<le> j" by simp
  then have "(2::rat) powi (binade x + 1) \<le> 2 powi j" by (rule power_int_increasing) simp
  with binade_bounds(2) [OF x(1)] x(2) show False by simp
qed

lemma round_even_cases:
  "(round_even y = \<lfloor>y\<rfloor> \<and> y - rat_of_int \<lfloor>y\<rfloor> \<le> 1 / 2) \<or>
   (round_even y = \<lfloor>y\<rfloor> + 1 \<and> 1 / 2 \<le> y - rat_of_int \<lfloor>y\<rfloor>)"
proof -
  consider "y - rat_of_int \<lfloor>y\<rfloor> < 1 / 2" | "1 / 2 < y - rat_of_int \<lfloor>y\<rfloor>"
    | "y - rat_of_int \<lfloor>y\<rfloor> = 1 / 2" by linarith
  then show ?thesis
  proof cases
    case 1 then show ?thesis by (simp add: round_even_def Let_def)
  next
    case 2
    then have "\<not> y - rat_of_int \<lfloor>y\<rfloor> < 1 / 2" by linarith
    with 2 show ?thesis by (simp add: round_even_def Let_def)
  next
    case 3 then show ?thesis by (simp add: round_even_def Let_def)
  qed
qed

lemma round_even_bounds:
  "rat_of_int (round_even y) \<le> y + 1 / 2" "y - 1 / 2 \<le> rat_of_int (round_even y)"
proof -
  have f: "rat_of_int \<lfloor>y\<rfloor> \<le> y" "y < rat_of_int \<lfloor>y\<rfloor> + 1" by linarith+
  from round_even_cases [of y]
  have "rat_of_int (round_even y) \<le> y + 1 / 2 \<and> y - 1 / 2 \<le> rat_of_int (round_even y)"
  proof
    assume "round_even y = \<lfloor>y\<rfloor> \<and> y - rat_of_int \<lfloor>y\<rfloor> \<le> 1 / 2"
    then have "rat_of_int (round_even y) = rat_of_int \<lfloor>y\<rfloor>" "y - rat_of_int \<lfloor>y\<rfloor> \<le> 1 / 2"
      by simp_all
    with f show ?thesis by linarith
  next
    assume "round_even y = \<lfloor>y\<rfloor> + 1 \<and> 1 / 2 \<le> y - rat_of_int \<lfloor>y\<rfloor>"
    then have "rat_of_int (round_even y) = rat_of_int \<lfloor>y\<rfloor> + 1" "1 / 2 \<le> y - rat_of_int \<lfloor>y\<rfloor>"
      by simp_all
    with f show ?thesis by linarith
  qed
  then show "rat_of_int (round_even y) \<le> y + 1 / 2" "y - 1 / 2 \<le> rat_of_int (round_even y)"
    by simp_all
qed

lemma round_even_ge:
  assumes "rat_of_int M \<le> y"
  shows "M \<le> round_even y"
proof -
  have "M \<le> \<lfloor>y\<rfloor>" using assms by (simp add: le_floor_iff)
  then show ?thesis using round_even_cases [of y] by auto
qed

lemma round_even_le:
  assumes "y \<le> rat_of_int M"
  shows "round_even y \<le> M"
proof -
  from round_even_cases [of y] show ?thesis
  proof
    assume "round_even y = \<lfloor>y\<rfloor> \<and> y - rat_of_int \<lfloor>y\<rfloor> \<le> 1 / 2"
    moreover have "\<lfloor>y\<rfloor> \<le> M" using assms by linarith
    ultimately show ?thesis by simp
  next
    assume r: "round_even y = \<lfloor>y\<rfloor> + 1 \<and> 1 / 2 \<le> y - rat_of_int \<lfloor>y\<rfloor>"
    then have "rat_of_int \<lfloor>y\<rfloor> < rat_of_int M" using assms by linarith
    then have "\<lfloor>y\<rfloor> < M" by (simp only: of_int_less_iff)
    with r show ?thesis by simp
  qed
qed

lemma round_even_of_int [simp]: "round_even (rat_of_int M) = M"
  using round_even_ge [of M "rat_of_int M"] round_even_le [of "rat_of_int M" M] by simp

lemma round53_pos:
  "0 < x \<Longrightarrow>
   round53 x = rat_of_int (round_even (x / 2 powi (binade x - 52))) * 2 powi (binade x - 52)"
  by (simp add: round53_def Let_def)

lemma grid_shift:
  assumes "e \<le> k"
  shows "rat_of_int M * 2 powi k = rat_of_int (M * 2 ^ nat (k - e)) * 2 powi e"
proof -
  have "(2::rat) powi k = 2 powi (k - e) * 2 powi e"
    using power_int_add [of "2::rat" "k - e" e] by simp
  moreover have "(2::rat) powi (k - e) = 2 ^ nat (k - e)"
    using assms by (simp add: power_int_nonneg_exp)
  ultimately show ?thesis by simp
qed

lemma round53_grid_ge:
  assumes "0 < x" "binade x - 52 \<le> k" "rat_of_int M * 2 powi k \<le> x"
  shows "rat_of_int M * 2 powi k \<le> round53 x"
proof -
  define e where "e = binade x - 52"
  define M' where "M' = M * 2 ^ nat (k - e)"
  have p: "(0::rat) < 2 powi e" by simp
  have g: "rat_of_int M * 2 powi k = rat_of_int M' * 2 powi e"
    unfolding M'_def using assms(2) by (intro grid_shift) (simp add: e_def)
  then have "rat_of_int M' * 2 powi e \<le> x" using assms(3) by simp
  then have "rat_of_int M' \<le> x / 2 powi e" using p by (simp add: pos_le_divide_eq)
  then have "M' \<le> round_even (x / 2 powi e)" by (rule round_even_ge)
  then have "rat_of_int M' \<le> rat_of_int (round_even (x / 2 powi e))" by (simp only: of_int_le_iff)
  then have "rat_of_int M' * 2 powi e \<le> rat_of_int (round_even (x / 2 powi e)) * 2 powi e"
    using p by (simp only: mult_le_cancel_right_pos)
  then show ?thesis unfolding g round53_pos [OF assms(1)] e_def .
qed

lemma round53_grid_le:
  assumes "0 < x" "binade x - 52 \<le> k" "x \<le> rat_of_int M * 2 powi k"
  shows "round53 x \<le> rat_of_int M * 2 powi k"
proof -
  define e where "e = binade x - 52"
  define M' where "M' = M * 2 ^ nat (k - e)"
  have p: "(0::rat) < 2 powi e" by simp
  have g: "rat_of_int M * 2 powi k = rat_of_int M' * 2 powi e"
    unfolding M'_def using assms(2) by (intro grid_shift) (simp add: e_def)
  then have "x \<le> rat_of_int M' * 2 powi e" using assms(3) by simp
  then have "x / 2 powi e \<le> rat_of_int M'" using p by (simp add: pos_divide_le_eq)
  then have "round_even (x / 2 powi e) \<le> M'" by (rule round_even_le)
  then have "rat_of_int (round_even (x / 2 powi e)) \<le> rat_of_int M'" by (simp only: of_int_le_iff)
  then have "rat_of_int (round_even (x / 2 powi e)) * 2 powi e \<le> rat_of_int M' * 2 powi e"
    using p by (simp only: mult_le_cancel_right_pos)
  then show ?thesis unfolding g round53_pos [OF assms(1)] e_def .
qed

lemma round53_exact:
  assumes "0 < x" "binade x - 52 \<le> k" "x = rat_of_int M * 2 powi k"
  shows "round53 x = x"
  using round53_grid_ge [OF assms(1,2), of M] round53_grid_le [OF assms(1,2), of M] assms(3)
  by simp

lemma round53_upper:
  assumes "0 < x"
  shows "round53 x \<le> x + 2 powi (binade x - 53)"
proof -
  define e where "e = binade x - 52"
  have p: "(0::rat) < 2 powi e" by simp
  have h: "(2::rat) powi (binade x - 53) = 2 powi e / 2"
    using power_int_add [of "2::rat" "e" "-1"] by (simp add: e_def)
  have "rat_of_int (round_even (x / 2 powi e)) \<le> x / 2 powi e + 1 / 2"
    by (rule round_even_bounds)
  then have "rat_of_int (round_even (x / 2 powi e)) * 2 powi e \<le> (x / 2 powi e + 1 / 2) * 2 powi e"
    using p by (simp only: mult_le_cancel_right_pos)
  also have "\<dots> = x + 2 powi e / 2" using p by (simp add: field_simps)
  finally show ?thesis unfolding h round53_pos [OF assms] e_def .
qed

lemma round53_of_int:
  assumes "0 \<le> n" "n < 2 ^ 53"
  shows "round53 (rat_of_int n) = rat_of_int n"
proof (cases "n = 0")
  case True then show ?thesis by (simp add: round53_def)
next
  case False
  then have pos: "0 < rat_of_int n" using assms(1) by simp
  have "rat_of_int n < rat_of_int (2 ^ 53)" using assms(2) by (simp only: of_int_less_iff)
  then have "rat_of_int n < 2 powi 53" by simp
  then have "binade (rat_of_int n) < 53" using pos by (intro binade_less)
  then have "binade (rat_of_int n) - 52 \<le> 0" by simp
  moreover have "rat_of_int n = rat_of_int n * 2 powi 0" by simp
  ultimately show ?thesis using pos by (intro round53_exact [where M = n and k = 0])
qed

lemma powi2_add: "(2::rat) powi (a + c) = 2 powi a * 2 powi c"
  by (rule power_int_add) simp

lemma powi2_plus2: "(2::rat) powi (a + 2) = 2 powi a * 4"
  by (simp add: powi2_add)

lemma powi2_plus3: "(2::rat) powi (b + 3) = 2 powi (b + 1) * 4"
proof -
  have "b + 3 = b + 1 + 2" by simp
  then have "(2::rat) powi (b + 3) = 2 powi (b + 1 + 2)" by (rule arg_cong)
  then show ?thesis by (simp only: powi2_plus2)
qed

lemma int_div_bounds:
  assumes "0 < (d::int)"
  shows "a div d * d \<le> a" and "a < (a div d + 1) * d"
proof -
  have e: "a = a div d * d + a mod d" by simp
  have m: "0 \<le> a mod d" "a mod d < d" using assms by simp_all
  show "a div d * d \<le> a" using e m(1) by linarith
  have "(a div d + 1) * d = a div d * d + d" by (simp add: algebra_simps)
  then show "a < (a div d + 1) * d" using e m(2) by linarith
qed

lemma round53_times4:
  assumes "0 < x"
  shows "round53 (round53 x * 4) = round53 x * 4"
proof -
  define b where "b = binade x"
  define y where "y = round53 x"
  define m where "m = round_even (x / 2 powi (b - 52))"
  have y: "y = rat_of_int m * 2 powi (b - 52)"
    unfolding y_def m_def b_def by (rule round53_pos [OF assms])
  have "rat_of_int 1 * 2 powi b \<le> x" using binade_bounds(1) [OF assms] by (simp add: b_def)
  then have "rat_of_int 1 * 2 powi b \<le> y"
    unfolding y_def by (intro round53_grid_ge [OF assms]) (simp add: b_def)
  then have lo: "2 powi b \<le> y" by simp
  then have ypos: "0 < y" using zero_less_power_int [of "2::rat" b] by linarith
  have "x \<le> rat_of_int 1 * 2 powi (b + 1)" using binade_bounds(2) [OF assms] by (simp add: b_def)
  then have "y \<le> rat_of_int 1 * 2 powi (b + 1)"
    unfolding y_def by (intro round53_grid_le [OF assms]) (simp add: b_def)
  then have hi: "y \<le> 2 powi (b + 1)" by simp
  have four: "(4::rat) = 2 powi 2" by simp
  have "b - 50 = b - 52 + 2" by simp
  then have "(2::rat) powi (b - 50) = 2 powi (b - 52 + 2)" by (rule arg_cong)
  then have "(2::rat) powi (b - 50) = 2 powi (b - 52) * 4" by (simp only: powi2_plus2)
  then have y4: "y * 4 = rat_of_int m * 2 powi (b - 50)" unfolding y by simp
  have p4: "0 < y * 4" using ypos by simp
  show ?thesis
  proof (cases "y = 2 powi (b + 1)")
    case True
    have "(2::rat) powi (b + 3) = 2 powi (b + 1) * 4" by (rule powi2_plus3)
    with True have e: "y * 4 = rat_of_int 1 * 2 powi (b + 3)" by simp
    have "(2::rat) powi (b + 3) < 2 powi (b + 4)" by (rule power_int_strict_increasing) simp_all
    then have "y * 4 < 2 powi (b + 4)" using e by simp
    then have "binade (y * 4) < b + 4" using p4 by (intro binade_less)
    then have "binade (y * 4) - 52 \<le> b + 3" by simp
    from round53_exact [OF p4 this e] show ?thesis by (simp only: y_def)
  next
    case False
    with hi have "y < 2 powi (b + 1)" by simp
    then have "y * 4 < 2 powi (b + 1) * 2 powi 2" by simp
    also have "\<dots> = 2 powi (b + 3)" by (simp add: powi2_plus3)
    finally have "binade (y * 4) < b + 3" using p4 by (intro binade_less)
    then have "binade (y * 4) - 52 \<le> b - 50" by simp
    from round53_exact [OF p4 this y4] show ?thesis by (simp only: y_def)
  qed
qed

lemma round53_quot:
  assumes n: "0 < n" "n < 2 ^ 51" and d: "0 < d"
  shows "rat_of_int (4 * n div d) \<le> round53 (rat_of_int n / rat_of_int d) * 4"
    and "round53 (rat_of_int n / rat_of_int d) * 4 < rat_of_int (4 * n div d) + 1"
proof -
  define q where "q = rat_of_int n / rat_of_int d"
  define N where "N = 4 * n div d"
  define b where "b = binade q"
  have dr: "0 < rat_of_int d" and nr: "0 < rat_of_int n" using n d by simp_all
  have qpos: "0 < q" using dr nr by (simp add: q_def)
  have "1 \<le> d" using d by simp
  then have "rat_of_int 1 \<le> rat_of_int d" by (simp only: of_int_le_iff)
  then have d1: "1 \<le> rat_of_int d" by simp
  have "rat_of_int n < rat_of_int (2 ^ 51)" using n(2) by (simp only: of_int_less_iff)
  then have n51: "rat_of_int n < 2 ^ 51" by simp
  have "q \<le> rat_of_int n" using d1 nr by (simp add: q_def field_simps mult_le_cancel_left1)
  then have "q < 2 powi 51" using n51 by simp
  then have b50: "b \<le> 50" unfolding b_def using binade_less [OF qpos, of 51] by simp
  have "N * d \<le> 4 * n" unfolding N_def using d by (rule int_div_bounds)
  then have "rat_of_int (N * d) \<le> rat_of_int (4 * n)" by (simp only: of_int_le_iff)
  then have Nlo: "rat_of_int N * rat_of_int d \<le> 4 * rat_of_int n" by simp
  have "4 * n < (N + 1) * d" unfolding N_def using d by (rule int_div_bounds)
  then have "4 * n + 1 \<le> (N + 1) * d" by simp
  then have "rat_of_int (4 * n + 1) \<le> rat_of_int ((N + 1) * d)" by (simp only: of_int_le_iff)
  then have Nhi: "4 * rat_of_int n + 1 \<le> (rat_of_int N + 1) * rat_of_int d" by simp
  \<comment> \<open>lower bound\<close>
  have "rat_of_int N * 2 powi (- 2) \<le> q"
    using Nlo dr by (simp add: q_def field_simps power_int_minus)
  then have "rat_of_int N * 2 powi (- 2) \<le> round53 q"
    using b50 by (intro round53_grid_ge [OF qpos]) (simp add: b_def)
  then have lo: "rat_of_int N \<le> round53 q * 4" by (simp add: power_int_minus field_simps)
  \<comment> \<open>upper bound\<close>
  have "b = b - 53 + 53" by simp
  then have "(2::rat) powi b = 2 powi (b - 53 + 53)" by (rule arg_cong)
  then have "(2::rat) powi b = 2 powi (b - 53) * 2 powi 53" by (simp only: powi2_add)
  then have h: "(2::rat) powi (b - 53) = 2 powi b / 2 ^ 53" by simp
  have "2 powi b \<le> q" unfolding b_def by (rule binade_bounds(1) [OF qpos])
  then have "(2::rat) powi (b - 53) \<le> q / 2 ^ 53" unfolding h by (simp add: divide_right_mono)
  moreover have "round53 q \<le> q + 2 powi (b - 53)" unfolding b_def by (rule round53_upper [OF qpos])
  ultimately have u: "round53 q \<le> q + q / 2 ^ 53" by linarith
  then have u4: "round53 q * 4 \<le> (q + q / 2 ^ 53) * 4" by simp
  have "4 * rat_of_int n < 2 ^ 53" using n51 by simp
  then have "4 * rat_of_int n / 2 ^ 53 < 1" by simp
  then have "4 * rat_of_int n + 4 * rat_of_int n / 2 ^ 53 < (rat_of_int N + 1) * rat_of_int d"
    using Nhi by linarith
  then have "(4 * rat_of_int n + 4 * rat_of_int n / 2 ^ 53) / rat_of_int d < rat_of_int N + 1"
    using dr by (simp add: pos_divide_less_eq)
  moreover have "(4 * rat_of_int n + 4 * rat_of_int n / 2 ^ 53) / rat_of_int d = (q + q / 2 ^ 53) * 4"
    by (simp add: q_def field_simps)
  ultimately have "(q + q / 2 ^ 53) * 4 < rat_of_int N + 1" by simp
  with u4 have hi: "round53 q * 4 < rat_of_int N + 1" by (rule le_less_trans)
  from lo show "rat_of_int (4 * n div d) \<le> round53 (rat_of_int n / rat_of_int d) * 4"
    unfolding N_def q_def .
  from hi show "round53 (rat_of_int n / rat_of_int d) * 4 < rat_of_int (4 * n div d) + 1"
    unfolding N_def q_def .
qed

lemma stepOf_exact:
  assumes "0 \<le> n" "n < 2 ^ 51" "0 < d" "d < 2 ^ 53"
  shows "stepOf cvt n d = 4 * n div d"
proof (cases "n = 0")
  case True
  then show ?thesis using assms(3)
    by (simp add: stepOf_def f64_quot_def f64_times4_def int_of_f64_def round53_def)
next
  case False
  then have n: "0 < n" using assms(1) by simp
  define z where "z = round53 (rat_of_int n / rat_of_int d) * 4"
  have rn: "round53 (rat_of_int n) = rat_of_int n" using assms(1,2) by (intro round53_of_int) simp_all
  have rd: "round53 (rat_of_int d) = rat_of_int d" using assms(3,4) by (intro round53_of_int) simp_all
  have "0 < rat_of_int n / rat_of_int d" using n assms(3) by simp
  then have rz: "round53 z = z" unfolding z_def by (rule round53_times4)
  have b: "rat_of_int (4 * n div d) \<le> z" "z < rat_of_int (4 * n div d) + 1"
    unfolding z_def by (rule round53_quot [OF n assms(2,3)])+
  have N0: "0 \<le> 4 * n div d" using assms(1,3) by (simp add: pos_imp_zdiv_nonneg_iff)
  then have "rat_of_int 0 \<le> rat_of_int (4 * n div d)" by (simp only: of_int_le_iff)
  then have z0: "0 \<le> z" using b(1) by simp
  have "4 * n div d \<le> 4 * n div 1" using assms(1,3) by (intro zdiv_mono2) simp_all
  then have "4 * n div d \<le> 4 * n" by simp
  then have "4 * n div d + 1 \<le> 2 ^ 62" using assms(2) by simp
  then have "rat_of_int (4 * n div d + 1) \<le> rat_of_int (2 ^ 62)" by (simp only: of_int_le_iff)
  then have "z < 2 ^ 63" using b(2) by simp
  moreover have "\<lfloor>z\<rfloor> = 4 * n div d" using b by (intro floor_unique) simp_all
  ultimately show ?thesis using z0 assms(3)
    by (simp add: stepOf_def f64_quot_def f64_times4_def int_of_f64_def rn rd rz z_def [symmetric])
qed

section \<open>The header coder\<close>

lemma unat_byte_less: "unat (v::byte) < 256"
  using unsigned_less [of v, where 'a = nat] by simp

lemma of_nat_eq_byte: "n < 256 \<Longrightarrow> (of_nat n = (b::byte)) = (unat b = n)"
  by (auto simp: unat_of_nat)

lemma switch_case_iff: "0 < k \<Longrightarrow> (i mod k = 0 \<and> 0 < i div k) = (0 < i \<and> k dvd i)" for i k :: nat
  by (auto simp: mod_eq_0_iff_dvd div_greater_zero_iff dvd_imp_le)

lemma class_lists_Suc:
  "class_lists (Suc n) =
     (if 0 < n then (class_lists n)[unat (class_of n) := class_lists n ! unat (class_of n) @ [of_nat n]]
      else class_lists n)"
  by (simp add: class_lists_def class_of_def)

lemma class_map_Suc:
  "n < 256 \<Longrightarrow>
   class_map (Suc n) = (if 0 < n then (class_map n)(of_nat n \<mapsto> class_of n) else class_map n)"
  by (auto simp: class_map_def fun_eq_iff of_nat_eq_byte less_Suc_eq unat_eq_0 unat_of_nat)

lemma initHCoder_body_step:
  assumes "n < 256"
  shows "initHCoder_body n \<lparr>hcoder = class_lists n, hmap = class_map n\<rparr>
           = \<lparr>hcoder = class_lists (Suc n), hmap = class_map (Suc n)\<rparr>"
  unfolding initHCoder_body_def switch_case_iff [OF zero_less_numeral] switch_case_iff [OF zero_less_one]
    class_lists_Suc class_map_Suc [OF assms]
  by (simp add: hcoder_add_def class_of_def)

lemma initHCoder_loop:
  "n \<le> 256 \<Longrightarrow>
   fold initHCoder_body [0..<n] \<lparr>hcoder = [[], [], [], []], hmap = Map.empty\<rparr>
     = \<lparr>hcoder = class_lists n, hmap = class_map n\<rparr>"
proof (induction n)
  case 0
  show ?case by (simp add: class_lists_def class_map_def fun_eq_iff)
next
  case (Suc n)
  then show ?case by (simp add: initHCoder_body_step)
qed

lemma New_eq: "New = \<lparr>hcoder = class_lists 256, hmap = class_map 256\<rparr>"
  using initHCoder_loop [of 256] by (simp add: New_def initHCoder_def)

lemma initHCoder_eq_New: "initHCoder s = New"
  by (cases s) (simp add: New_def initHCoder_def)

lemma set_class_list:
  "set (map of_nat (filter P [0..<256])) = {v::byte. P (unat v)}"
proof -
  have "v \<in> set (map of_nat (filter P [0..<256])) \<longleftrightarrow> P (unat v)" for v :: byte
  proof
    assume "v \<in> set (map of_nat (filter P [0..<256]))"
    then obtain i where "i < 256" "P i" "v = of_nat i" by auto
    then show "P (unat v)" by (simp add: unat_of_nat)
  next
    assume "P (unat v)"
    then have "unat v \<in> set (filter P [0..<256])" by (simp add: unat_byte_less)
    then have "(of_nat (unat v) :: byte) \<in> of_nat ` set (filter P [0..<256])" by (rule imageI)
    then show "v \<in> set (map of_nat (filter P [0..<256]))" by simp
  qed
  then show ?thesis by blast
qed

lemma hcoder_New_sets:
  "set (hcoder New ! 3) = {v. v \<noteq> 0 \<and> 4 dvd unat v}"
  "set (hcoder New ! 2) = {v. v \<noteq> 0 \<and> \<not> 4 dvd unat v \<and> 3 dvd unat v}"
  "set (hcoder New ! 1) = {v. v \<noteq> 0 \<and> \<not> 4 dvd unat v \<and> \<not> 3 dvd unat v \<and> 2 dvd unat v}"
  "set (hcoder New ! Suc 0) = {v. v \<noteq> 0 \<and> \<not> 4 dvd unat v \<and> \<not> 3 dvd unat v \<and> 2 dvd unat v}"
  "set (hcoder New ! 0) = {v. v \<noteq> 0 \<and> \<not> 4 dvd unat v \<and> \<not> 3 dvd unat v \<and> \<not> 2 dvd unat v}"
  by (simp_all add: New_eq class_lists_def set_class_list unat_gt_0 del: set_map set_filter map_map)

lemma hmap_New: "hmap New v = (if v = 0 then None else Some (class_of (unat v)))"
  by (simp add: New_eq class_map_def unat_byte_less)

lemma distinct_class_list: "distinct (map of_nat (filter P [0..<256]) :: byte list)"
  by (simp add: distinct_map inj_on_def unat_of_nat word_of_nat_eq_iff take_bit_eq_mod)

lemma hcoder_New_distinct: "k < 4 \<Longrightarrow> distinct (hcoder New ! k)"
  using distinct_class_list by (auto simp: New_eq class_lists_def nth_Cons')

lemma length_hcoder_New: "length (hcoder New) = 4"
  by (simp add: New_eq class_lists_def)


declare binary_digits.simps [simp del]

lemma length_bytes_numeral:
  "length_bytes (numeral k) l = (0 OR of_nat (l AND 255)) # length_bytes (pred_numeral k) (drop_bit 8 l)"
  by (simp add: numeral_eq_Suc)

lemma length_bytes_1:
  "length_bytes 1 l = [0 OR of_nat (l AND 255)]"
  by simp

lemma length_binary_digits_le: "0 < k \<Longrightarrow> length (binary_digits n) \<le> k \<longleftrightarrow> n < 2 ^ k"
proof (induction n arbitrary: k rule: binary_digits.induct)
  case (1 n)
  show ?case
  proof (cases "n < 2")
    case True
    moreover have "(2::nat) \<le> 2 ^ k" using 1(2) by (cases k) auto
    ultimately show ?thesis using 1(2) by (simp add: binary_digits.simps [of n])
  next
    case False
    show ?thesis
    proof (cases k)
      case 0 with 1(2) show ?thesis by simp
    next
      case (Suc j)
      show ?thesis
      proof (cases "j = 0")
        case True
        with False Suc show ?thesis by (simp add: binary_digits.simps [of n] binary_digits.simps [of "n div 2"])
      next
        case j: False
        then have "length (binary_digits (n div 2)) \<le> j \<longleftrightarrow> n div 2 < 2 ^ j"
          using 1(1) [OF False, of j] by simp
        moreover have "n div 2 < 2 ^ j \<longleftrightarrow> n < 2 ^ Suc j" by auto
        ultimately show ?thesis using False Suc by (simp add: binary_digits.simps [of n])
      qed
    qed
  qed
qed

lemma length_Sprintf_08b: "length (Sprintf_08b n) = max 8 (length (binary_digits n))"
  by (simp add: Sprintf_08b_def)

lemma bytecount_eq:
  "bytecount n = (if n < 2 ^ 8 then 1 else if n < 2 ^ 16 then 2 else if n < 2 ^ 24 then 3
                  else if n < 2 ^ 32 then 4 else bytecount n)"
proof -
  let ?d = "length (binary_digits n)"
  have le: "?d \<le> 8 \<longleftrightarrow> n < 2 ^ 8" "?d \<le> 16 \<longleftrightarrow> n < 2 ^ 16" "?d \<le> 24 \<longleftrightarrow> n < 2 ^ 24"
    "?d \<le> 32 \<longleftrightarrow> n < 2 ^ 32"
    by (rule length_binary_digits_le, simp)+
  have ar: "(if 0 < max 8 d mod 8 then max 8 d div 8 + 1 else max 8 d div 8)
      = (if d \<le> 8 then 1 else if d \<le> 16 then 2 else if d \<le> 24 then 3 else 4)"
    if "d \<le> 32" for d :: nat
  proof -
    define q r where "q = max 8 d div 8" and "r = max 8 d mod 8"
    have "max 8 d = 8 * q + r" "r < 8" by (simp_all add: q_def r_def)
    then have "(if 0 < r then q + 1 else q)
      = (if d \<le> 8 then 1 else if d \<le> 16 then 2 else if d \<le> 24 then 3 else 4)"
      using that by (simp add: max_def split: if_splits)
    then show ?thesis unfolding q_def r_def .
  qed
  show ?thesis
  proof (cases "n < 2 ^ 32")
    case True
    then have "?d \<le> 32" using le(4) by simp
    from ar [OF this] show ?thesis
      unfolding bytecount_def length_Sprintf_08b Let_def le using True by simp
  next
    case False
    then show ?thesis by simp
  qed
qed


lemma upt_8: "[0..<8] = [0,1,2,3,4,5,6,7]"
  by (simp add: upt_conv_Cons)

lemma hmap_of_class:
  assumes "k < 4" "idx \<in> set (hcoder New ! k)"
  shows "hmap New idx = Some (of_nat k)"
proof -
  from assms(1) consider "k = 0" | "k = 1" | "k = 2" | "k = 3" by linarith
  then show ?thesis
    using assms(2) by cases (simp_all add: hcoder_New_sets hmap_New class_of_def)
qed

lemma hcoder_New_nonempty: "k < 4 \<Longrightarrow> hcoder New ! k \<noteq> []"
proof -
  assume "k < 4"
  then consider "k = 0" | "k = 1" | "k = 2" | "k = 3" by linarith
  then have "\<exists>v. v \<in> set (hcoder New ! k)"
  proof cases
    case 1 then show ?thesis by (auto simp: hcoder_New_sets intro!: exI [of _ 1])
  next
    case 2 then show ?thesis by (auto simp: hcoder_New_sets intro!: exI [of _ 2])
  next
    case 3 then show ?thesis by (auto simp: hcoder_New_sets intro!: exI [of _ 3])
  next
    case 4 then show ?thesis by (auto simp: hcoder_New_sets intro!: exI [of _ 4])
  qed
  then show ?thesis by auto
qed

lemma prepend_index_New:
  assumes "k < 4"
  shows "\<exists>idx. prepend_index New rnd k b = Inr (idx # b) \<and> idx \<in> set (hcoder New ! k)"
  using assms hcoder_New_nonempty [OF assms]
  by (simp add: prepend_index_def Intn_def length_hcoder_New)

lemma headerBytes_unfold:
  "headerBytes s rnd dlen =
     (if dlen > 2 ^ 32 then Inl (ErrCapacityMax dlen (2 ^ 32))
      else if dlen < 2 ^ 8 then prepend_index s rnd 0 (length_bytes (bytecount dlen) dlen)
      else if dlen < 2 ^ 16 then prepend_index s rnd 1 (length_bytes (bytecount dlen) dlen)
      else if dlen < 2 ^ 24 then prepend_index s rnd 2 (length_bytes (bytecount dlen) dlen)
      else if dlen < 2 ^ 32 then prepend_index s rnd 3 (length_bytes (bytecount dlen) dlen)
      else Inr (length_bytes (bytecount dlen) dlen))"
  unfolding headerBytes_def bytecount_def Let_def by (rule refl)

lemma headerBytes_New:
  assumes "dlen < 2 ^ 32"
  shows "\<exists>idx. headerBytes New rnd dlen = Inr (idx # length_bytes (bytecount dlen) dlen)
           \<and> idx \<in> set (hcoder New ! (bytecount dlen - 1))"
proof -
  consider "dlen < 2 ^ 8" | "\<not> dlen < 2 ^ 8" "dlen < 2 ^ 16" | "\<not> dlen < 2 ^ 16" "dlen < 2 ^ 24"
    | "\<not> dlen < 2 ^ 24" "dlen < 2 ^ 32"
    using assms by blast
  then show ?thesis
  proof cases
    case 1
    then have "bytecount dlen = 1" by (subst bytecount_eq) (simp only: if_True)
    moreover have "headerBytes New rnd dlen = prepend_index New rnd 0 (length_bytes (bytecount dlen) dlen)"
      unfolding headerBytes_unfold using 1 assms by simp
    ultimately show ?thesis using prepend_index_New [of 0 rnd] by simp
  next
    case 2
    then have "\<not> dlen < 2 ^ 8" by simp
    with 2 have "bytecount dlen = 2" by (subst bytecount_eq) (simp only: if_True if_False)
    moreover have "headerBytes New rnd dlen = prepend_index New rnd 1 (length_bytes (bytecount dlen) dlen)"
      unfolding headerBytes_unfold using 2 assms by simp
    ultimately show ?thesis using prepend_index_New [of 1 rnd] by simp
  next
    case 3
    then have "\<not> dlen < 2 ^ 8" by simp
    with 3 have "bytecount dlen = 3" by (subst bytecount_eq) (simp only: if_True if_False)
    moreover have "headerBytes New rnd dlen = prepend_index New rnd 2 (length_bytes (bytecount dlen) dlen)"
      unfolding headerBytes_unfold using 3 assms by simp
    ultimately show ?thesis using prepend_index_New [of 2 rnd] by simp
  next
    case 4
    then have "\<not> dlen < 2 ^ 8" "\<not> dlen < 2 ^ 16" by simp_all
    with 4 have "bytecount dlen = 4" by (subst bytecount_eq) (simp only: if_True if_False)
    moreover have "headerBytes New rnd dlen = prepend_index New rnd 3 (length_bytes (bytecount dlen) dlen)"
      unfolding headerBytes_unfold using 4 assms by simp
    ultimately show ?thesis using prepend_index_New [of 3 rnd] by simp
  qed
qed

lemma length_length_bytes [simp]: "length (length_bytes n l) = n"
  by (induction n arbitrary: l) auto


text \<open>
  Claim C9. After construction the four class lists and the reverse map partition the
  values 1..255 by first-match priority (class 3: divisible by 4; else class 2: divisible
  by 3; else class 1: divisible by 2; else class 0); every class is non-empty and without
  repetition; 0 is in no class and has no entry in the map; the map sends a value to the
  index of the one list that holds it. \<open>initHCoder\<close> gives the same tables whatever the
  state before, and \<open>Conceal\<close> and \<open>Reveal\<close> only read them (they take the
  receiver by value and return no new one).
\<close>

theorem initHCoder_partition:
  "initHCoder s = New \<and> length (hcoder New) = 4 \<and>
   (\<forall>v. (v \<in> set (hcoder New ! 3)) = (v \<noteq> 0 \<and> 4 dvd unat v)) \<and>
   (\<forall>v. (v \<in> set (hcoder New ! 2)) = (v \<noteq> 0 \<and> \<not> 4 dvd unat v \<and> 3 dvd unat v)) \<and>
   (\<forall>v. (v \<in> set (hcoder New ! 1)) = (v \<noteq> 0 \<and> \<not> 4 dvd unat v \<and> \<not> 3 dvd unat v \<and> 2 dvd unat v)) \<and>
   (\<forall>v. (v \<in> set (hcoder New ! 0)) =
          (v \<noteq> 0 \<and> \<not> 4 dvd unat v \<and> \<not> 3 dvd unat v \<and> \<not> 2 dvd unat v)) \<and>
   (\<forall>k<4. hcoder New ! k \<noteq> [] \<and> distinct (hcoder New ! k)) \<and>
   (\<forall>v. v \<noteq> 0 \<longrightarrow> (\<exists>!k. k < 4 \<and> v \<in> set (hcoder New ! k))) \<and>
   (\<forall>k<4. 0 \<notin> set (hcoder New ! k)) \<and> hmap New 0 = None \<and>
   (\<forall>v k. k < 4 \<longrightarrow> (hmap New v = Some (of_nat k)) = (v \<in> set (hcoder New ! k))) \<and>
   (\<forall>v. v \<noteq> 0 \<longrightarrow> (\<exists>k<4. hmap New v = Some (of_nat k)))"
proof -
  have four: "k < 4 \<longleftrightarrow> k = 0 \<or> k = 1 \<or> k = 2 \<or> k = 3" for k :: nat by auto
  have mem: "(v \<in> set (hcoder New ! k)) = (v \<noteq> 0 \<and> class_of (unat v) = of_nat k)" if "k < 4" for v k
    using that by (auto simp: four hcoder_New_sets class_of_def)
  have cls: "\<exists>k<4. class_of i = of_nat k" for i
  proof -
    have "class_of i = of_nat 0 \<or> class_of i = of_nat 1 \<or> class_of i = of_nat 2
        \<or> class_of i = of_nat 3"
      by (simp add: class_of_def)
    moreover have "(0::nat) < 4" "(1::nat) < 4" "(2::nat) < 4" "(3::nat) < 4" by simp_all
    ultimately show ?thesis by blast
  qed
  have inj: "j = k" if "j < 4" "k < 4" "(of_nat j :: byte) = of_nat k" for j k
  proof -
    have u: "unat (of_nat j :: byte) = j" "unat (of_nat k :: byte) = k"
      using that(1,2) by (simp_all add: unat_of_nat)
    from that(3) have "unat (of_nat j :: byte) = unat (of_nat k :: byte)" by (rule arg_cong)
    then show ?thesis by (simp only: u)
  qed
  have uniq: "\<exists>!k. k < 4 \<and> v \<in> set (hcoder New ! k)" if "v \<noteq> 0" for v
  proof -
    obtain k where k: "k < 4" "class_of (unat v) = of_nat k" using cls by blast
    show ?thesis
    proof (rule ex1I [of _ k])
      show "k < 4 \<and> v \<in> set (hcoder New ! k)" using k that by (simp add: mem)
    next
      fix j assume "j < 4 \<and> v \<in> set (hcoder New ! j)"
      then have "j < 4" "class_of (unat v) = of_nat j" using mem [of j v] by simp_all
      then show "j = k" using k inj [of j k] by simp
    qed
  qed
  have hm: "(hmap New v = Some (of_nat k)) = (v \<in> set (hcoder New ! k))" if "k < 4" for v k
    using that by (simp add: mem hmap_New)
  have ex: "\<exists>k<4. hmap New v = Some (of_nat k)" if "v \<noteq> 0" for v
    using that cls [of "unat v"] by (simp add: hmap_New)
  have c1: "initHCoder s = New" by (rule initHCoder_eq_New)
  have c2: "length (hcoder New) = 4" by (rule length_hcoder_New)
  have c3: "\<forall>v. (v \<in> set (hcoder New ! 3)) = (v \<noteq> 0 \<and> 4 dvd unat v)"
    by (simp only: hcoder_New_sets mem_Collect_eq simp_thms)
  have c4: "\<forall>v. (v \<in> set (hcoder New ! 2)) = (v \<noteq> 0 \<and> \<not> 4 dvd unat v \<and> 3 dvd unat v)"
    by (simp only: hcoder_New_sets mem_Collect_eq simp_thms)
  have c5: "\<forall>v. (v \<in> set (hcoder New ! 1)) =
               (v \<noteq> 0 \<and> \<not> 4 dvd unat v \<and> \<not> 3 dvd unat v \<and> 2 dvd unat v)"
    by (simp only: hcoder_New_sets mem_Collect_eq simp_thms)
  have c6: "\<forall>v. (v \<in> set (hcoder New ! 0)) =
               (v \<noteq> 0 \<and> \<not> 4 dvd unat v \<and> \<not> 3 dvd unat v \<and> \<not> 2 dvd unat v)"
    by (simp only: hcoder_New_sets mem_Collect_eq simp_thms)
  have c7: "\<forall>k<4. hcoder New ! k \<noteq> [] \<and> distinct (hcoder New ! k)"
    using hcoder_New_nonempty hcoder_New_distinct by blast
  have c8: "\<forall>v. v \<noteq> 0 \<longrightarrow> (\<exists>!k. k < 4 \<and> v \<in> set (hcoder New ! k))"
    using uniq by (intro allI impI)
  have c9: "\<forall>k<4. 0 \<notin> set (hcoder New ! k)"
    using mem by blast
  have c10: "hmap New 0 = None" by (simp add: hmap_New)
  have c11: "\<forall>v k. k < 4 \<longrightarrow> (hmap New v = Some (of_nat k)) = (v \<in> set (hcoder New ! k))"
    using hm by (intro allI impI)
  have c12: "\<forall>v. v \<noteq> 0 \<longrightarrow> (\<exists>k<4. hmap New v = Some (of_nat k))"
    using ex by (intro allI impI)
  show ?thesis
    by (rule conjI [OF c1 conjI [OF c2 conjI [OF c3 conjI [OF c4 conjI [OF c5 conjI [OF c6 conjI [OF c7
          conjI [OF c8 conjI [OF c9 conjI [OF c10 conjI [OF c11 c12]]]]]]]]]]])
qed

theorem initHCoder_partition_witness:
  "(12::byte) \<in> set (hcoder New ! 3) \<and> hcoder New ! 3 \<noteq> [] \<and> (0::byte) \<notin> set (hcoder New ! 3)
     \<and> hmap New 12 = Some 3 \<and> (\<exists>!k. k < 4 \<and> (12::byte) \<in> set (hcoder New ! k))"
proof -
  note p = initHCoder_partition [of "\<lparr>hcoder = [], hmap = Map.empty\<rparr>"]
  note q = p [THEN conjunct2, THEN conjunct2]
  note r = q [THEN conjunct2, THEN conjunct2, THEN conjunct2, THEN conjunct2]
  have "((12::byte) \<in> set (hcoder New ! 3)) = ((12::byte) \<noteq> 0 \<and> 4 dvd unat (12::byte))"
    using q [THEN conjunct1] by (rule spec)
  then have 1: "(12::byte) \<in> set (hcoder New ! 3)" by simp
  have "\<forall>k<4. hcoder New ! k \<noteq> [] \<and> distinct (hcoder New ! k)" by (rule r [THEN conjunct1])
  then have 2: "hcoder New ! 3 \<noteq> []" by simp
  have "\<forall>k<4. 0 \<notin> set (hcoder New ! k)" by (rule r [THEN conjunct2, THEN conjunct2, THEN conjunct1])
  then have 3: "(0::byte) \<notin> set (hcoder New ! 3)" by simp
  have "\<forall>v k. k < 4 \<longrightarrow> (hmap New v = Some (of_nat k)) = (v \<in> set (hcoder New ! k))"
    by (rule r [THEN conjunct2, THEN conjunct2, THEN conjunct2, THEN conjunct2, THEN conjunct1])
  then have "(3::nat) < 4 \<longrightarrow> (hmap New 12 = Some (of_nat 3)) = ((12::byte) \<in> set (hcoder New ! 3))"
    by blast
  then have 4: "hmap New 12 = Some 3" using 1 by simp
  have "\<forall>v. v \<noteq> 0 \<longrightarrow> (\<exists>!k. k < 4 \<and> v \<in> set (hcoder New ! k))"
    by (rule r [THEN conjunct2, THEN conjunct1])
  then have "(12::byte) \<noteq> 0 \<longrightarrow> (\<exists>!k. k < 4 \<and> (12::byte) \<in> set (hcoder New ! k))" by (rule spec)
  then have 5: "\<exists>!k. k < 4 \<and> (12::byte) \<in> set (hcoder New ! k)" by simp
  from 1 2 3 4 5 show ?thesis by (intro conjI)
qed

text \<open>
  Claim C8. At the length \<open>2 ^ 32\<close> \<open>headerBytes\<close> returns no error: the test is
  \<^verbatim>\<open>dlen > max\<close>, no case of the switch applies, and the five length bytes come back with
  no index byte in front.
\<close>

theorem headerBytes_at_max_length:
  "headerBytes New rnd (2 ^ 32) = Inr [0, 0, 0, 0, 1]"
  by (simp add: headerBytes_def Sprintf_08b_def binary_digits.simps length_bytes_numeral drop_bit_eq_div)

lemma header_length_New:
  assumes "k < 4" "idx \<in> set (hcoder New ! k)"
  shows "header_length New idx = k + 2"
proof -
  from assms(1) consider "k = 0" | "k = 1" | "k = 2" | "k = 3" by linarith
  then show ?thesis
    using hmap_of_class [OF assms] by cases (simp_all add: header_length_def)
qed

text \<open>
  Claim C5. For each of the lengths 0, 255, 256, 65535, 65536, 16777215 and 16777216, and
  for every draw of the random source, the header has \<open>1 + k\<close> bytes with \<open>k\<close> = 1, 2, 2,
  3, 3, 4, 4; decoding it as \<open>Reveal\<close> does (the header length from the index byte, the
  content length from the bytes after it) gives \<open>1 + k\<close> and the length itself.
\<close>

theorem header_self_description:
  assumes "(L, k) \<in> set [(0, 1), (255, 1), (256, 2), (65535, 2), (65536, 3), (16777215, 3), (16777216, 4)]"
  shows "\<exists>h. headerBytes New rnd L = Inr h \<and> length h = 1 + k \<and>
              header_length New (h ! 0) = 1 + k \<and> content_length (tl h) 0 = int L"
proof -
  have L: "L < 2 ^ 32" using assms by auto
  have k: "bytecount L = k" using assms by (subst bytecount_eq) auto
  have k4: "k - 1 < 4" "k - 1 + 2 = 1 + k" using assms by auto
  have c: "content_length (length_bytes k L) 0 = int L"
    using assms
    by (auto simp: content_length_def content_length_bit_def upt_8 upt_conv_Cons length_bytes_numeral
        drop_bit_eq_div)
  from headerBytes_New [OF L, of rnd] obtain idx where
    "headerBytes New rnd L = Inr (idx # length_bytes k L)" "idx \<in> set (hcoder New ! (k - 1))"
    unfolding k by blast
  then show ?thesis using header_length_New [OF k4(1), of idx] k4(2) c by simp
qed

theorem header_self_description_witness:
  "\<exists>h. headerBytes New 7 65536 = Inr h \<and> length h = 4 \<and>
        header_length New (h ! 0) = 4 \<and> content_length (tl h) 0 = 65536"
  using header_self_description [of 65536 3 7] by simp

section \<open>Conceal and Reveal on concrete carriers\<close>

lemma upt_256: "[0..<256] = 0 # Suc 0 # [Suc (Suc 0)..<256]"
proof -
  have "[0..<256] = 0 # [Suc 0..<256]" by (rule upt_conv_Cons) simp
  moreover have "[Suc 0..<256] = Suc 0 # [Suc (Suc 0)..<256]" by (rule upt_conv_Cons) simp
  ultimately show ?thesis by (simp only:)
qed

lemma hcoder_New_first: "hcoder New ! 0 ! 0 = 1" "hcoder New ! 0 \<noteq> []"
  by (simp_all add: New_eq class_lists_def upt_256)

lemma and_255: "(n::nat) AND 255 = n mod 256"
proof -
  have "(255::nat) = mask 8" by (simp add: mask_eq_exp_minus_1)
  then have "n AND 255 = take_bit 8 n" by (simp only: take_bit_eq_mask)
  then show ?thesis by (simp add: take_bit_eq_mod)
qed

lemma headerBytes_New_0_small:
  "dlen < 256 \<Longrightarrow> headerBytes New 0 dlen = Inr [1, of_nat dlen]"
proof -
  assume d: "dlen < 256"
  then have b: "bytecount dlen = 1" by (subst bytecount_eq) simp
  have "dlen AND 255 = dlen" using d by (simp add: and_255)
  then show ?thesis using d hcoder_New_first
    by (simp add: headerBytes_unfold b prepend_index_def Intn_def length_hcoder_New)
qed

lemma raster_2_2: "raster 2 2 = [(0,0),(1,0),(0,1),(1,1)]"
  by (simp add: raster_def upt_conv_Cons)

lemma hmap_New_1: "hmap New 1 = Some 0"
  by (simp add: hmap_New class_of_def)

lemma replicate_num: "replicate (numeral k) x = x # replicate (pred_numeral k) x"
  by (simp add: numeral_eq_Suc)

lemma raster_3_2: "raster 3 2 = [(0,0),(1,0),(2,0),(0,1),(1,1),(2,1)]"
  by (simp add: raster_def upt_conv_Cons)

lemmas reveal_eval2 = replicate_num Let_def Reveal_def CalculateCapacity_def reveal_pixel_def reveal_cell_def
  reveal_init_def indices_def in_header_def len_def reveal_bit_def byte_complete_def make_def
  store_def header_length_def normalized_def
  go_quo_def go_rem_def content_length_def content_length_bit_def upt_8 stepOf_exact

lemmas decoded_eval = decoded_def NRGBA_RGBA_def premultiply_def

lemmas conceal_eval2 = conceal_pixel_def conceal_channel_def conceal_cell_def
      indices_def conceal_bit_def index_def normalized_def go_quo_def go_rem_def

text \<open>
  Claim C2. On the 2x2 opaque black carrier \<open>Conceal\<close> of the payload \<open>[65]\<close> succeeds,
  but \<open>Reveal\<close> of the steganogram returns the empty payload: the guard
  \<^verbatim>\<open>dbi < len(data)\<close> also applies to header cells, so with a one-byte payload the
  length byte of the header (header byte 1) is never written, and \<open>Reveal\<close> reads the
  length from the untouched carrier bits.
\<close>

theorem minimum_carrier_payload_lost:
  "Conceal cvt_amd64 New 0 [65] carrier_black =
     Inr \<lparr>out_width = 2, out_height = 2,
          Pix = [NRGBA 1 0 0 255, NRGBA 0 0 0 255, NRGBA 0 0 1 255, NRGBA 0 0 1 255]\<rparr> \<and>
   Reveal cvt_amd64 New
     (decoded \<lparr>out_width = 2, out_height = 2,
          Pix = [NRGBA 1 0 0 255, NRGBA 0 0 0 255, NRGBA 0 0 1 255, NRGBA 0 0 1 255]\<rparr>) = Inr []"
proof
  have "conceal_setup cvt_amd64 New 0 [65] carrier_black = Inr ([1, 1], 4)"
    by (simp add: conceal_setup_def headerBytes_New_0_small carrier_black_def CalculateCapacity_def
        stepOf_exact)
  then show "Conceal cvt_amd64 New 0 [65] carrier_black =
     Inr \<lparr>out_width = 2, out_height = 2,
          Pix = [NRGBA 1 0 0 255, NRGBA 0 0 0 255, NRGBA 0 0 1 255, NRGBA 0 0 1 255]\<rparr>"
    by (simp add: Conceal_def) (simp add: carrier_black_def raster_2_2 conceal_eval2)
  show "Reveal cvt_amd64 New
     (decoded \<lparr>out_width = 2, out_height = 2,
          Pix = [NRGBA 1 0 0 255, NRGBA 0 0 0 255, NRGBA 0 0 1 255, NRGBA 0 0 1 255]\<rparr>) = Inr []"
    by (simp add: reveal_eval2 decoded_eval raster_2_2 hmap_New_1 stepOf_def f64_quot_def f64_times4_def
        int_of_f64_def cvt_amd64_def)
qed

text \<open>
  Claim C1. The round trip fails for payloads of one byte. On a 3x2 carrier whose cells
  4 to 7 hold the value 2 in their low bits, the payload \<open>[90]\<close> is concealed without
  error and revealed as \<open>[90, 0]\<close>: header byte 1 is not written (the guard of the claim
  above), so the length is read as 2.
\<close>

theorem round_trip_fails_for_one_byte:
  "Conceal cvt New 0 [90] carrier_3x2 =
     Inr \<lparr>out_width = 3, out_height = 2,
          Pix = [NRGBA 1 0 0 255, NRGBA 0 2 0 255, NRGBA 0 0 2 255,
                 NRGBA 2 1 1 255, NRGBA 0 0 0 255, NRGBA 0 0 0 255]\<rparr> \<and>
   Reveal cvt New
     (decoded \<lparr>out_width = 3, out_height = 2,
          Pix = [NRGBA 1 0 0 255, NRGBA 0 2 0 255, NRGBA 0 0 2 255,
                 NRGBA 2 1 1 255, NRGBA 0 0 0 255, NRGBA 0 0 0 255]\<rparr>) = Inr [90, 0]"
proof
  have "conceal_setup cvt New 0 [90] carrier_3x2 = Inr ([1, 1], 8)"
    by (simp add: conceal_setup_def headerBytes_New_0_small carrier_3x2_def CalculateCapacity_def
        stepOf_exact)
  then show "Conceal cvt New 0 [90] carrier_3x2 =
     Inr \<lparr>out_width = 3, out_height = 2,
          Pix = [NRGBA 1 0 0 255, NRGBA 0 2 0 255, NRGBA 0 0 2 255,
                 NRGBA 2 1 1 255, NRGBA 0 0 0 255, NRGBA 0 0 0 255]\<rparr>"
    by (simp add: Conceal_def) (simp add: carrier_3x2_def raster_3_2 conceal_eval2)
  show "Reveal cvt New
     (decoded \<lparr>out_width = 3, out_height = 2,
          Pix = [NRGBA 1 0 0 255, NRGBA 0 2 0 255, NRGBA 0 0 2 255,
                 NRGBA 2 1 1 255, NRGBA 0 0 0 255, NRGBA 0 0 0 255]\<rparr>) = Inr [90, 0]"
    by (simp add: reveal_eval2 decoded_eval raster_3_2 hmap_New_1)
qed




lemma is_panic_simps [simp]:
  "is_panic (Panic p)" "\<not> is_panic (ErrCapacityMax a b)" "\<not> is_panic (ErrCapacityOverflow a b)"
  by (simp_all add: is_panic_def)

lemma foldE_Inl:
  "foldE f xs s = Inl e \<Longrightarrow> \<exists>x s'. x \<in> set xs \<and> f x s' = Inl e"
proof (induction xs arbitrary: s)
  case Nil then show ?case by simp
next
  case (Cons x xs)
  show ?case
  proof (cases "f x s")
    case (Inl e')
    with Cons.prems show ?thesis by auto
  next
    case (Inr s')
    with Cons.prems have "foldE f xs s' = Inl e" by simp
    from Cons.IH [OF this] show ?thesis by auto
  qed
qed

lemma mapE_Inl:
  "mapE f xs = Inl e \<Longrightarrow> \<exists>x \<in> set xs. f x = Inl e"
  by (induction xs) (auto split: sum.splits)

lemma mapE_Inr:
  "mapE f xs = Inr ys \<Longrightarrow> length ys = length xs \<and> (\<forall>i<length xs. f (xs ! i) = Inr (ys ! i))"
proof (induction xs arbitrary: ys)
  case Nil then show ?case by simp
next
  case (Cons x xs)
  from Cons.prems obtain y ys' where y: "f x = Inr y" "mapE f xs = Inr ys'" "ys = y # ys'"
    by (auto split: sum.splits)
  from Cons.IH [OF y(2)] y(1,3) show ?case by (auto simp: nth_Cons')
qed

lemma index_panic: "index b i = Inl e \<Longrightarrow> is_panic e"
  by (auto simp: index_def split: if_splits)

lemma indices_panic: "indices h hl step abi = Inl e \<Longrightarrow> is_panic e"
  by (auto simp: indices_def split: if_splits)

lemma conceal_bit_panic: "conceal_bit hdata data abi dbi sbi ebi pxc = Inl e \<Longrightarrow> is_panic e"
  by (auto simp: conceal_bit_def Let_def split: sum.splits if_splits dest: index_panic)

lemma conceal_cell_panic: "conceal_cell hdata data step abi pxc = Inl e \<Longrightarrow> is_panic e"
  unfolding conceal_cell_def
  by (auto split: sum.splits if_splits prod.splits dest!: indices_panic foldE_Inl conceal_bit_panic)

lemma conceal_channel_panic: "conceal_channel hdata data step pxi ci px = Inl e \<Longrightarrow> is_panic e"
  by (auto simp: conceal_channel_def split: sum.splits dest: conceal_cell_panic)

lemma conceal_pixel_panic: "conceal_pixel hdata data step img xy = Inl e \<Longrightarrow> is_panic e"
  unfolding conceal_pixel_def Let_def
  by (auto split: sum.splits dest!: foldE_Inl conceal_channel_panic simp del: foldE.simps)

lemma conceal_loop_panic:
  "mapE (conceal_pixel hdata data step img) xs = Inl e \<Longrightarrow> is_panic e"
  by (auto dest!: mapE_Inl conceal_pixel_panic)

text \<open>
  Claim C3. Where \<open>headerBytes\<close> produces a header for the length of the payload,
  \<open>Conceal\<close> fails with \<open>ErrCapacityOverflow\<close> if and only if the length exceeds the
  capacity less the length of that header; in that case the error carries the length and
  the capacity and no image is produced.
\<close>

theorem capacity_overflow_iff:
  assumes "headerBytes s rnd (length data) = Inr hdata"
  shows "((\<exists>l c. Conceal cvt s rnd data sourceImg = Inl (ErrCapacityOverflow l c)) \<longleftrightarrow>
           int (length data) >
             int (CalculateCapacity (img_width sourceImg) (img_height sourceImg) 3 2) - int (length hdata)) \<and>
         (int (length data) >
             int (CalculateCapacity (img_width sourceImg) (img_height sourceImg) 3 2) - int (length hdata) \<longrightarrow>
          Conceal cvt s rnd data sourceImg =
            Inl (ErrCapacityOverflow (length data)
                   (CalculateCapacity (img_width sourceImg) (img_height sourceImg) 3 2)) \<and>
          (\<forall>out. Conceal cvt s rnd data sourceImg \<noteq> Inr out))"
proof -
  define cap where "cap = CalculateCapacity (img_width sourceImg) (img_height sourceImg) 3 2"
  have over: "Conceal cvt s rnd data sourceImg = Inl (ErrCapacityOverflow (length data) cap)"
    if "int (length data) > int cap - int (length hdata)"
    using that assms by (simp add: Conceal_def conceal_setup_def cap_def)
  have fits: "Conceal cvt s rnd data sourceImg \<noteq> Inl (ErrCapacityOverflow l c)"
    if "\<not> int (length data) > int cap - int (length hdata)" for l c
  proof
    assume a: "Conceal cvt s rnd data sourceImg = Inl (ErrCapacityOverflow l c)"
    show False
    proof (cases "hdata = []")
      case True
      with that assms a show False by (simp add: Conceal_def conceal_setup_def cap_def Let_def)
    next
      case False
      with that assms a
      have "mapE (conceal_pixel hdata data
                    (stepOf cvt (int cap - int (length hdata)) (int (length data))) sourceImg)
              (raster (img_width sourceImg) (img_height sourceImg)) = Inl (ErrCapacityOverflow l c)"
        by (simp add: Conceal_def conceal_setup_def cap_def Let_def split: sum.splits)
      from conceal_loop_panic [OF this] show False by simp
    qed
  qed
  show ?thesis unfolding cap_def [symmetric] using over fits by auto
qed

theorem capacity_overflow_iff_witness:
  "headerBytes New 0 (length [65, 66 :: byte]) = Inr [1, 2] \<and>
   Conceal cvt_amd64 New 0 [65, 66] carrier_black = Inl (ErrCapacityOverflow 2 3)"
proof -
  have h: "headerBytes New 0 (length [65, 66 :: byte]) = Inr [1, 2]"
    by (simp add: headerBytes_New_0_small)
  have "int (length [65, 66 :: byte]) >
      int (CalculateCapacity (img_width carrier_black) (img_height carrier_black) 3 2) - int (length [1, 2 :: byte])"
    by (simp add: CalculateCapacity_def carrier_black_def)
  with capacity_overflow_iff [OF h, of cvt_amd64 carrier_black]
  have "Conceal cvt_amd64 New 0 [65, 66] carrier_black =
      Inl (ErrCapacityOverflow (length [65, 66 :: byte])
             (CalculateCapacity (img_width carrier_black) (img_height carrier_black) 3 2))"
    by blast
  then have "Conceal cvt_amd64 New 0 [65, 66] carrier_black = Inl (ErrCapacityOverflow 2 3)"
    by (simp add: CalculateCapacity_def carrier_black_def)
  with h show ?thesis ..
qed











end
